theory Spec2Isabelle
  imports Complex_Main "HOL-Library.Word" "HOL-Library.Multiset"
begin

unbundle bit_operations_syntax

section \<open>Frames, rectangles and the inversion transform\<close>

text \<open>
  A frame is the numpy array the capture loop works on after
  \<^verbatim>\<open>cv2.cvtColor(img, cv2.COLOR_BGRA2RGB)\<close>: height x width x 3 values of type
  \<^verbatim>\<open>uint8\<close>. It is a list of rows, a row a list of pixels, a pixel its three channels.
  A rectangle is the 4-tuple (left, top, right, bottom) of Python integers that
  \<^verbatim>\<open>monitor_rect\<close> and the entries of \<^verbatim>\<open>video_windows\<close> are.
\<close>

type_synonym channel = "8 word"
type_synonym pixel = "channel \<times> channel \<times> channel"
type_synonym frame = "pixel list list"
type_synonym rect = "int \<times> int \<times> int \<times> int"

definition frame_height :: "'a list list \<Rightarrow> nat" where
  "frame_height img = length img"

definition frame_width :: "'a list list \<Rightarrow> nat" where
  "frame_width img = (case img of [] \<Rightarrow> 0 | row # _ \<Rightarrow> length row)"

text \<open>A numpy array is rectangular: every row has the width of the array.\<close>

definition rectangular :: "'a list list \<Rightarrow> bool" where
  "rectangular img = list_all (\<lambda>row. length row = frame_width img) img"

text \<open>
  \<^verbatim>\<open>invert_colors\<close>: \<^verbatim>\<open>return 255 - image\<close>. On a \<^verbatim>\<open>uint8\<close> array the
  subtraction is elementwise and stays in \<^verbatim>\<open>uint8\<close>; it builds a new array.
\<close>

definition invert_channel :: "channel \<Rightarrow> channel" where
  "invert_channel v = 255 - v"

definition invert_pixel :: "pixel \<Rightarrow> pixel" where
  "invert_pixel p = (case p of (r, g, b) \<Rightarrow> (invert_channel r, invert_channel g, invert_channel b))"

definition invert_colors :: "frame \<Rightarrow> frame" where
  "invert_colors img = map (map invert_pixel) img"

section \<open>Masking the video windows\<close>

text \<open>
  Python slicing \<^verbatim>\<open>a[i:j]\<close> on an axis of length n: a negative bound counts from the end,
  and every bound is clamped to 0..n. \<open>fill_slice\<close> is the assignment \<^verbatim>\<open>xs[a:b] = v\<close> of a
  scalar, \<open>fill_region\<close> the assignment \<^verbatim>\<open>m[y0:y1, x0:x1] = v\<close> on a two-dimensional array.
\<close>

definition slice_index :: "nat \<Rightarrow> int \<Rightarrow> nat" where
  "slice_index n i = (if i < 0 then nat (max 0 (i + int n)) else nat (min i (int n)))"

definition fill_slice :: "int \<Rightarrow> int \<Rightarrow> 'a \<Rightarrow> 'a list \<Rightarrow> 'a list" where
  "fill_slice a b v xs =
     map (\<lambda>(i, x). if slice_index (length xs) a \<le> i \<and> i < slice_index (length xs) b then v else x)
       (enumerate 0 xs)"

definition fill_region :: "int \<Rightarrow> int \<Rightarrow> int \<Rightarrow> int \<Rightarrow> 'a \<Rightarrow> 'a list list \<Rightarrow> 'a list list" where
  "fill_region y0 y1 x0 x1 v m =
     map (\<lambda>(j, row). if slice_index (length m) y0 \<le> j \<and> j < slice_index (length m) y1
                      then fill_slice x0 x1 v row else row)
       (enumerate 0 m)"

text \<open>
  The body of the loop over \<^verbatim>\<open>video_windows\<close> in \<^verbatim>\<open>mask_video_regions\<close>: the window's
  rectangle in monitor-relative coordinates, clamped to the monitor, as
  (rel_x, rel_y, rel_right, rel_bottom); the mask is set to 0 there when the clamped
  rectangle is not empty.
\<close>

definition clip_to_monitor :: "rect \<Rightarrow> rect \<Rightarrow> rect" where
  "clip_to_monitor monitor_rect video_rect =
     (case video_rect of (vx, vy, vright, vbottom) \<Rightarrow>
      case monitor_rect of (mx, my, mright, mbottom) \<Rightarrow>
        (max 0 (vx - mx), max 0 (vy - my), min (mright - mx) (vright - mx), min (mbottom - my) (vbottom - my)))"

definition mask_rect :: "rect \<Rightarrow> channel list list \<Rightarrow> rect \<Rightarrow> channel list list" where
  "mask_rect monitor_rect msk video_rect =
     (case clip_to_monitor monitor_rect video_rect of (rel_x, rel_y, rel_right, rel_bottom) \<Rightarrow>
        if rel_x < rel_right \<and> rel_y < rel_bottom
        then fill_region rel_y rel_bottom rel_x rel_right 0 msk
        else msk)"

text \<open>
  \<^verbatim>\<open>mask = np.ones(image.shape[:2], dtype=np.uint8) * 255\<close>, then the loop over the windows
  (a Python set of rectangles; the list is its iteration order).
\<close>

definition video_mask :: "rect \<Rightarrow> frame \<Rightarrow> rect list \<Rightarrow> channel list list" where
  "video_mask monitor_rect img video_windows =
     foldl (mask_rect monitor_rect)
       (replicate (frame_height img) (replicate (frame_width img) 255)) video_windows"

text \<open>
  \<^verbatim>\<open>for i in range(3): image[:, :, i] = cv2.bitwise_and(image[:, :, i], mask)\<close>: each of the
  three channels of every pixel is ANDed with the mask value at the pixel's position.
\<close>

definition bitwise_and_pixel :: "pixel \<Rightarrow> channel \<Rightarrow> pixel" where
  "bitwise_and_pixel p m = (case p of (r, g, b) \<Rightarrow> (r AND m, g AND m, b AND m))"

text \<open>
  \<^verbatim>\<open>mask_video_regions\<close>, as the contents of the array it returns: the frame itself when
  \<^verbatim>\<open>video_windows\<close> is empty, the frame ANDed with the mask otherwise.
\<close>

definition mask_video_regions :: "rect \<Rightarrow> frame \<Rightarrow> rect list \<Rightarrow> frame" where
  "mask_video_regions monitor_rect img video_windows =
     (if video_windows = [] then img
      else map2 (map2 bitwise_and_pixel) img (video_mask monitor_rect img video_windows))"

text \<open>
  The same function on a store of arrays, for what it does to the object it is given: the
  argument is a reference, the assignments \<^verbatim>\<open>image[:, :, i] = ...\<close> write into the array
  it refers to, and \<^verbatim>\<open>return image\<close> returns the reference it received.
\<close>

type_synonym ref = nat
type_synonym heap = "ref \<Rightarrow> frame"

definition mask_video_regions_at :: "rect \<Rightarrow> ref \<Rightarrow> rect list \<Rightarrow> heap \<Rightarrow> ref \<times> heap" where
  "mask_video_regions_at monitor_rect r video_windows h =
     (if video_windows = [] then (r, h)
      else (r, h(r := map2 (map2 bitwise_and_pixel) (h r) (video_mask monitor_rect (h r) video_windows))))"

text \<open>
  The frame computation of one active cycle of \<^verbatim>\<open>capture_and_invert\<close>, from the captured
  RGB frame to the frame handed to the canvas:
  \<^verbatim>\<open>inverted = self.invert_colors(img)\<close>, then
  \<^verbatim>\<open>if video_windows: inverted = self.mask_video_regions(inverted, video_windows)\<close>.
\<close>

definition invert_and_mask :: "rect \<Rightarrow> frame \<Rightarrow> rect list \<Rightarrow> frame" where
  "invert_and_mask monitor_rect img video_windows =
     (let inverted = invert_colors img
      in if video_windows \<noteq> [] then mask_video_regions monitor_rect inverted video_windows
         else inverted)"

text \<open>
  The words of the claims about regions. A pixel at row y and column x of the frame is at
  (x, y) in the monitor's local coordinates. \<open>in_rect\<close> is membership in a rectangle
  (left and top inclusive, right and bottom exclusive, as window rectangles are);
  \<open>in_overlap\<close> says that the pixel lies in the intersection of the window's rectangle,
  moved to local coordinates, with the monitor's own [0, width] x [0, height].
\<close>

definition in_rect :: "rect \<Rightarrow> int \<Rightarrow> int \<Rightarrow> bool" where
  "in_rect r x y = (case r of (x0, y0, x1, y1) \<Rightarrow> x0 \<le> x \<and> x < x1 \<and> y0 \<le> y \<and> y < y1)"

definition in_overlap :: "rect \<Rightarrow> rect \<Rightarrow> nat \<Rightarrow> nat \<Rightarrow> bool" where
  "in_overlap monitor_rect video_rect y x =
     (case video_rect of (vx, vy, vright, vbottom) \<Rightarrow>
      case monitor_rect of (mx, my, mright, mbottom) \<Rightarrow>
        in_rect (vx - mx, vy - my, vright - mx, vbottom - my) (int x) (int y)
        \<and> in_rect (0, 0, mright - mx, mbottom - my) (int x) (int y))"

definition excluded :: "rect \<Rightarrow> rect list \<Rightarrow> nat \<Rightarrow> nat \<Rightarrow> bool" where
  "excluded monitor_rect video_windows y x = list_ex (\<lambda>v. in_overlap monitor_rect v y x) video_windows"

definition inside_monitor :: "rect \<Rightarrow> rect \<Rightarrow> bool" where
  "inside_monitor monitor_rect video_rect =
     (case video_rect of (vx, vy, vright, vbottom) \<Rightarrow>
      case monitor_rect of (mx, my, mright, mbottom) \<Rightarrow>
        mx \<le> vx \<and> vx < vright \<and> vright \<le> mright \<and> my \<le> vy \<and> vy < vbottom \<and> vbottom \<le> mbottom)"

text \<open>
  The intersection of a window's rectangle with the monitor's rectangle, in screen
  coordinates, is empty: the window lies fully outside the monitor (or is degenerate).
\<close>

definition overlap_empty :: "rect \<Rightarrow> rect \<Rightarrow> bool" where
  "overlap_empty monitor_rect video_rect =
     (case video_rect of (vx, vy, vright, vbottom) \<Rightarrow>
      case monitor_rect of (mx, my, mright, mbottom) \<Rightarrow>
        \<not> (max vx mx < min vright mright \<and> max vy my < min vbottom mbottom))"

text \<open>A frame of two rows and two columns, for the examples.\<close>

definition demo_frame :: frame where
  "demo_frame = [[(10, 20, 30), (40, 50, 60)], [(70, 80, 90), (100, 110, 120)]]"

section \<open>The key detector\<close>

text \<open>
  \<^verbatim>\<open>WindowsKeyDetector\<close>. Times are the values of \<^verbatim>\<open>time.time()\<close>, in seconds, taken as
  exact numbers; a callback is any value with equality (Python compares bound methods with
  \<^verbatim>\<open>==\<close>). \<^verbatim>\<open>detection_thread\<close> is the thread object once \<^verbatim>\<open>start\<close> has made one.
\<close>

record 'cb detector =
  hold_duration :: rat
  key_pressed :: bool
  press_start_time :: rat
  running :: bool
  detection_thread :: "nat option"
  callbacks :: "'cb list"

definition WindowsKeyDetector_init :: "rat \<Rightarrow> 'cb detector" where
  "WindowsKeyDetector_init duration =
     \<lparr>hold_duration = duration, key_pressed = False, press_start_time = 0, running = False,
      detection_thread = None, callbacks = []\<rparr>"

datatype py_error = ValueError | IndexError

text \<open>\<^verbatim>\<open>list.append\<close>, and \<^verbatim>\<open>list.remove\<close>, which deletes the first equal element and raises
  \<^verbatim>\<open>ValueError\<close> when there is none.\<close>

definition list_append :: "'a \<Rightarrow> 'a list \<Rightarrow> 'a list" where
  "list_append x xs = xs @ [x]"

definition list_remove :: "'a \<Rightarrow> 'a list \<Rightarrow> py_error + 'a list" where
  "list_remove x xs = (if x \<in> set xs then Inr (remove1 x xs) else Inl ValueError)"

definition add_callback :: "'cb \<Rightarrow> 'cb detector \<Rightarrow> 'cb detector" where
  "add_callback callback d = d\<lparr>callbacks := list_append callback (callbacks d)\<rparr>"

definition remove_callback :: "'cb \<Rightarrow> 'cb detector \<Rightarrow> py_error + 'cb detector" where
  "remove_callback callback d =
     (if callback \<in> set (callbacks d)
      then (case list_remove callback (callbacks d) of
              Inl e \<Rightarrow> Inl e
            | Inr cbs \<Rightarrow> Inr (d\<lparr>callbacks := cbs\<rparr>))
      else Inr d)"

text \<open>
  One iteration of the body of \<^verbatim>\<open>detection_loop\<close>. The poll is what the iteration reads:
  \<open>Inr (current_pressed, current_time)\<close>, or \<open>Inl e\<close> when reading the key state raises e.
  The result lists what the iteration did, in order: each callback it called, each message
  it printed. An exception inside a callback is caught around that one call, so every
  callback of the list is called.
\<close>

datatype 'cb detector_event = Called 'cb | Printed string

type_synonym poll = "string + bool \<times> rat"

definition detection_step :: "poll \<Rightarrow> 'cb detector \<Rightarrow> 'cb detector_event list \<times> 'cb detector" where
  "detection_step p d =
     (case p of
        Inl e \<Rightarrow> ([Printed (''Error in Windows key detection: '' @ e)], d)
      | Inr (current_pressed, current_time) \<Rightarrow>
          if current_pressed \<and> \<not> key_pressed d
          then ([], d\<lparr>key_pressed := True, press_start_time := current_time\<rparr>)
          else if \<not> current_pressed \<and> key_pressed d
          then ([], d\<lparr>key_pressed := False, press_start_time := 0\<rparr>)
          else if current_pressed \<and> key_pressed d
          then (let hold_time = current_time - press_start_time d
                in if hold_time \<ge> hold_duration d
                   then (map Called (callbacks d), d\<lparr>press_start_time := current_time\<rparr>)
                   else ([], d))
          else ([], d))"

text \<open>
  \<^verbatim>\<open>while self.running:\<close> over the polls of successive iterations. The loop itself never
  writes \<^verbatim>\<open>running\<close>; a finite list of polls is a finite stretch of the loop's run.
\<close>

fun detection_loop :: "poll list \<Rightarrow> 'cb detector \<Rightarrow> 'cb detector_event list \<times> 'cb detector" where
  "detection_loop [] d = ([], d)"
| "detection_loop (p # ps) d =
     (if running d
      then (case detection_step p d of (evs, d') \<Rightarrow>
              case detection_loop ps d' of (rest, d'') \<Rightarrow> (evs @ rest, d''))
      else ([], d))"

text \<open>How many times the loop called a callback.\<close>

definition times_called :: "'cb \<Rightarrow> 'cb detector_event list \<Rightarrow> nat" where
  "times_called cb evs = length (filter (\<lambda>e. e = Called cb) evs)"

text \<open>The key held down from time 0 on, read every 10 ms: n polls at 0, 0.01, 0.02, ...\<close>

definition held_polls :: "nat \<Rightarrow> poll list" where
  "held_polls n = map (\<lambda>i. Inr (True, rat_of_nat i / 100)) [0..<n]"

text \<open>The polls of \<open>held_polls\<close> from the a-th up to, not including, the b-th.\<close>

definition held_from :: "nat \<Rightarrow> nat \<Rightarrow> poll list" where
  "held_from a b = map (\<lambda>i. Inr (True, rat_of_nat i / 100)) [a..<b]"

text \<open>
  The detector of the controller while the key is down: threshold 2.0 s, running, one
  callback, the press (or the last firing) at time t.
\<close>

definition armed :: "'cb \<Rightarrow> rat \<Rightarrow> 'cb detector" where
  "armed cb t = \<lparr>hold_duration = 2, key_pressed = True, press_start_time = t, running = True,
     detection_thread = None, callbacks = [cb]\<rparr>"

text \<open>
  Where a callback stands in the list: from its first registration on, the list holds
  nothing but this callback. That is so, too, for a callback that is not registered.
\<close>

definition only_trailing :: "'a \<Rightarrow> 'a list \<Rightarrow> bool" where
  "only_trailing cb cbs = list_all (\<lambda>x. x = cb) (dropWhile (\<lambda>x. x \<noteq> cb) cbs)"

text \<open>A detector with two callbacks registered, for the examples.\<close>

definition demo_detector :: "nat detector" where
  "demo_detector = (WindowsKeyDetector_init 2)\<lparr>callbacks := [1, 2]\<rparr>"

section \<open>The overlay, the capture loop and the controller\<close>

text \<open>
  What start and stop act on besides the objects' own fields: the overlay windows that
  exist on the screen (each \<^verbatim>\<open>tk.Toplevel()\<close> is a new one), the number of threads started
  on \<^verbatim>\<open>capture_and_invert\<close> and on \<^verbatim>\<open>detection_loop\<close>, and the error boxes shown.
\<close>

record world =
  overlays :: "nat list"
  next_window :: nat
  capture_threads :: nat
  detection_threads :: nat
  error_boxes :: "string list"

text \<open>
  \<^verbatim>\<open>ColorInverter\<close>. The canvas is packed into the overlay window and lives and dies with
  it, so both fields hold the window's number. The reference to the video detector is not
  a field here: what it returns in a cycle is an input of that cycle.
\<close>

record inverter =
  monitor_rect :: rect
  inv_running :: bool
  overlay_window :: "nat option"
  canvas :: "nat option"
  inversion_active :: bool
  capture_thread :: "nat option"

definition ColorInverter_init :: "rect \<Rightarrow> inverter" where
  "ColorInverter_init r =
     \<lparr>monitor_rect = r, inv_running = False, overlay_window = None, canvas = None,
      inversion_active = False, capture_thread = None\<rparr>"

definition create_overlay_window :: "inverter \<Rightarrow> world \<Rightarrow> inverter \<times> world" where
  "create_overlay_window c w =
     (let n = next_window w
      in (c\<lparr>overlay_window := Some n, canvas := Some n\<rparr>,
          w\<lparr>overlays := overlays w @ [n], next_window := Suc n\<rparr>))"

definition set_inversion_active :: "bool \<Rightarrow> inverter \<Rightarrow> inverter" where
  "set_inversion_active active c = c\<lparr>inversion_active := active\<rparr>"

text \<open>\<^verbatim>\<open>ColorInverter.start\<close>: no test of \<^verbatim>\<open>running\<close>; a window and a thread on every call.\<close>

definition inverter_start :: "inverter \<Rightarrow> world \<Rightarrow> inverter \<times> world" where
  "inverter_start c w =
     (case create_overlay_window (c\<lparr>inv_running := True\<rparr>) w of (c', w') \<Rightarrow>
        (c'\<lparr>capture_thread := Some (capture_threads w')\<rparr>,
         w'\<lparr>capture_threads := Suc (capture_threads w')\<rparr>))"

text \<open>
  \<^verbatim>\<open>ColorInverter.stop\<close>. \<^verbatim>\<open>destroy()\<close> removes the window from the screen; Tk's
  \<^verbatim>\<open>destroy\<close> of a window that no longer exists does nothing. The field keeps the
  window object.
\<close>

definition inverter_stop :: "inverter \<Rightarrow> world \<Rightarrow> inverter \<times> world" where
  "inverter_stop c w =
     (let c' = c\<lparr>inv_running := False\<rparr>
      in case overlay_window c' of
           Some n \<Rightarrow> (c', w\<lparr>overlays := removeAll n (overlays w)\<rparr>)
         | None \<Rightarrow> (c', w))"

text \<open>
  One cycle of \<^verbatim>\<open>capture_and_invert\<close> reads from its surroundings: the calls other threads
  made on the inverter since the previous cycle; the capture (\<^verbatim>\<open>sct.grab\<close> and the
  conversion to RGB), which gives a frame or raises; \<^verbatim>\<open>get_video_windows()\<close>, which gives
  the rectangles or raises; and \<^verbatim>\<open>winfo_exists()\<close> with the drawing on the canvas, which
  answers or raises. \<open>Inl e\<close> is the exception with message e.
\<close>

datatype call = SetInversionActive bool | Stop

record cycle_env =
  calls :: "call list"
  screenshot :: "string + frame"
  video_windows :: "string + rect list"
  surface :: "string + bool"

fun apply_call :: "inverter \<Rightarrow> call \<Rightarrow> inverter" where
  "apply_call c (SetInversionActive active) = set_inversion_active active c"
| "apply_call c Stop = c\<lparr>inv_running := False\<rparr>"

datatype action = Captured | ShowImage frame | ClearOverlay | Print string | Sleep

text \<open>\<^verbatim>\<open>self.canvas and self.overlay_window.winfo_exists()\<close>: without a canvas the window
  is not asked.\<close>

definition surface_ready :: "cycle_env \<Rightarrow> inverter \<Rightarrow> string + bool" where
  "surface_ready env c = (case canvas c of None \<Rightarrow> Inr False | Some _ \<Rightarrow> surface env)"

text \<open>
  The \<^verbatim>\<open>try\<close> block of one cycle: what it did, and the exception that ended it, if any.
\<close>

definition cycle :: "cycle_env \<Rightarrow> inverter \<Rightarrow> action list \<times> string option" where
  "cycle env c =
     (if inversion_active c
      then (case screenshot env of
              Inl e \<Rightarrow> ([], Some e)
            | Inr img \<Rightarrow>
                (case video_windows env of
                   Inl e \<Rightarrow> ([Captured], Some e)
                 | Inr vws \<Rightarrow>
                     (let inverted = invert_and_mask (monitor_rect c) img vws
                      in case surface_ready env c of
                           Inl e \<Rightarrow> ([Captured], Some e)
                         | Inr ok \<Rightarrow>
                             if ok then ([Captured, ShowImage inverted, Sleep], None)
                             else ([Captured, Sleep], None))))
      else (case surface_ready env c of
              Inl e \<Rightarrow> ([], Some e)
            | Inr ok \<Rightarrow> if ok then ([ClearOverlay, Sleep], None) else ([Sleep], None)))"

text \<open>
  \<^verbatim>\<open>while self.running:\<close> with the \<^verbatim>\<open>except Exception as e: print(...); break\<close> around
  the cycle. The result is what the loop did, whether it has ended (the test of
  \<^verbatim>\<open>running\<close> failed, or the \<^verbatim>\<open>break\<close>), and the inverter at that point. A finite list of
  cycles is a finite stretch of the loop's run.
\<close>

fun capture_and_invert :: "cycle_env list \<Rightarrow> inverter \<Rightarrow> action list \<times> bool \<times> inverter" where
  "capture_and_invert [] c = ([], False, c)"
| "capture_and_invert (env # envs) c =
     (let c' = foldl apply_call c (calls env)
      in if \<not> inv_running c' then ([], True, c')
         else (case cycle env c' of
                 (out, Some e) \<Rightarrow> (out @ [Print (''Error in capture loop: '' @ e)], True, c')
               | (out, None) \<Rightarrow>
                   (case capture_and_invert envs c' of (rest, ended, c'') \<Rightarrow>
                      (out @ rest, ended, c''))))"

text \<open>\<^verbatim>\<open>WindowsKeyDetector.start\<close> and \<^verbatim>\<open>stop\<close>.\<close>

definition detector_start :: "'cb detector \<Rightarrow> world \<Rightarrow> 'cb detector \<times> world" where
  "detector_start d w =
     (if \<not> running d
      then (d\<lparr>running := True, detection_thread := Some (detection_threads w)\<rparr>,
            w\<lparr>detection_threads := Suc (detection_threads w)\<rparr>)
      else (d, w))"

definition detector_stop :: "'cb detector \<Rightarrow> 'cb detector" where
  "detector_stop d = d\<lparr>running := False\<rparr>"

text \<open>
  \<^verbatim>\<open>InverterGUI\<close>, the controller: the monitors of the monitor manager (their rectangles
  and names), the index the combo box reports (-1 when nothing is selected), the key
  detector, the inverter or \<^verbatim>\<open>None\<close>, the flag, the state of the two buttons, the status
  line. Its one callback is its own \<^verbatim>\<open>toggle_inversion\<close>.
\<close>

datatype callback = ToggleInversion

record monitor =
  rect :: rect
  name :: string

record gui =
  monitors :: "monitor list"
  selected_index :: int
  windows_key_detector :: "callback detector"
  gui_inverter :: "inverter option"
  inversion_enabled :: bool
  start_button_enabled :: bool
  stop_button_enabled :: bool
  status :: string

definition InverterGUI_init :: "monitor list \<Rightarrow> gui" where
  "InverterGUI_init ms =
     \<lparr>monitors = ms, selected_index = 0, windows_key_detector = WindowsKeyDetector_init 2,
      gui_inverter = None, inversion_enabled = False, start_button_enabled = True,
      stop_button_enabled = False, status = ''Ready''\<rparr>"

text \<open>
  \<^verbatim>\<open>xs[i]\<close> on a Python list: an index from 0 up to the length reads from the front, an
  index from minus the length up to -1 reads from the end, any other raises
  \<^verbatim>\<open>IndexError\<close>.
\<close>

definition list_get :: "'a list \<Rightarrow> int \<Rightarrow> py_error + 'a" where
  "list_get xs i =
     (if 0 \<le> i \<and> i < int (length xs) then Inr (xs ! nat i)
      else if - int (length xs) \<le> i \<and> i < 0 then Inr (xs ! nat (int (length xs) + i))
      else Inl IndexError)"

definition start_detection :: "gui \<Rightarrow> world \<Rightarrow> gui \<times> world" where
  "start_detection g w =
     (if selected_index g < 0
      then (g, w\<lparr>error_boxes := error_boxes w @ [''Please select a monitor'']\<rparr>)
      else (case list_get (monitors g) (selected_index g) of
              Inl e \<Rightarrow> (g, w\<lparr>error_boxes := error_boxes w @ [''Failed to start detection'']\<rparr>)
            | Inr selected_monitor \<Rightarrow>
                (case inverter_start (ColorInverter_init (rect selected_monitor)) w of (c, w') \<Rightarrow>
                 case detector_start (add_callback ToggleInversion (windows_key_detector g)) w' of
                   (d, w'') \<Rightarrow>
                     (g\<lparr>gui_inverter := Some c, windows_key_detector := d,
                        start_button_enabled := False, stop_button_enabled := True,
                        status := ''Detection active - Hold Windows key to toggle''\<rparr>, w''))))"

definition stop_detection :: "gui \<Rightarrow> world \<Rightarrow> gui \<times> world" where
  "stop_detection g w =
     (let d = detector_stop (windows_key_detector g);
          w' = (case gui_inverter g of Some c \<Rightarrow> snd (inverter_stop c w) | None \<Rightarrow> w)
      in (g\<lparr>windows_key_detector := d, gui_inverter := None, inversion_enabled := False,
            start_button_enabled := True, stop_button_enabled := False, status := ''Ready''\<rparr>, w'))"

text \<open>
  \<^verbatim>\<open>toggle_inversion\<close>. The flag and the inverter are written first; the status line that
  names the monitor is written after them, when \<^verbatim>\<open>monitors[selected_index]\<close> finds a
  monitor (with the index -1 of an empty selection that is the last monitor); otherwise the
  lookup raises inside the callback, after the two writes.
\<close>

definition toggle_inversion :: "gui \<Rightarrow> gui" where
  "toggle_inversion g =
     (case gui_inverter g of
        None \<Rightarrow> g
      | Some c \<Rightarrow>
          (let enabled = \<not> inversion_enabled g;
               g' = g\<lparr>inversion_enabled := enabled,
                       gui_inverter := Some (set_inversion_active enabled c)\<rparr>
           in if enabled
              then (case list_get (monitors g') (selected_index g') of
                      Inl e \<Rightarrow> g'
                    | Inr selected_monitor \<Rightarrow>
                        g'\<lparr>status := ''Inverting '' @ name selected_monitor
                                       @ '' - Hold Windows key to toggle''\<rparr>)
              else g'\<lparr>status := ''Detection active - Hold Windows key to toggle''\<rparr>))"

text \<open>Examples: a screen with nothing on it yet, and an inverter started on it.\<close>

definition empty_world :: world where
  "empty_world = \<lparr>overlays = [], next_window = 0, capture_threads = 0, detection_threads = 0,
     error_boxes = []\<rparr>"

definition started_inverter :: inverter where
  "started_inverter = fst (inverter_start (ColorInverter_init (0, 0, 2, 2)) empty_world)"

text \<open>
  Two cycles with no call from another thread: one whose capture raises, one in which
  every step succeeds and no video window is found.
\<close>

definition failing_cycle :: cycle_env where
  "failing_cycle = \<lparr>calls = [], screenshot = Inl ''display changed'', video_windows = Inr [],
     surface = Inr True\<rparr>"

definition good_cycle :: cycle_env where
  "good_cycle = \<lparr>calls = [], screenshot = Inr demo_frame, video_windows = Inr [],
     surface = Inr True\<rparr>"


text \<open>A controller with one monitor, as \<^verbatim>\<open>__init__\<close> leaves it.\<close>

definition demo_gui :: gui where
  "demo_gui = InverterGUI_init [\<lparr>rect = (0, 0, 2, 2), name = ''DISPLAY1''\<rparr>]"

text \<open>
  The words of the claim about the first cycles. \<open>no_toggle\<close>: no call of
  \<^verbatim>\<open>set_inversion_active\<close> reached the inverter before this cycle (a \<^verbatim>\<open>stop\<close> may have).
  \<open>idle_action\<close>: what a cycle of the clear-overlay branch can do, that is clear the
  canvas, sleep, or print the error that ended the loop; no capture and no image.
\<close>

definition no_toggle :: "cycle_env \<Rightarrow> bool" where
  "no_toggle env = list_all (\<lambda>a. a = Stop) (calls env)"

definition idle_action :: "action \<Rightarrow> bool" where
  "idle_action a = (case a of ClearOverlay \<Rightarrow> True | Sleep \<Rightarrow> True | Print _ \<Rightarrow> True | _ \<Rightarrow> False)"

section \<open>Inversion is an involution\<close>

lemma invert_channel_twice: "invert_channel (invert_channel v) = v"
  by (simp add: invert_channel_def)

lemma invert_pixel_twice: "invert_pixel (invert_pixel p) = p"
  by (cases p) (simp add: invert_pixel_def invert_channel_twice)

lemma unat_invert_channel: "unat (invert_channel v) = 255 - unat v"
proof -
  have "unat v < 256"
    using unsigned_less [of v, where ?'a = nat] by simp
  then have "v \<le> 255"
    by (simp add: word_le_nat_alt)
  then have "unat (255 - v) = unat (255 :: channel) - unat v"
    by (rule unat_sub)
  then show ?thesis
    by (simp add: invert_channel_def)
qed

text \<open>
  C6. Every channel value is an 8-bit value, that is a value of 0..255; inverting it gives
  255 minus the value, read as a number, and inverting twice gives the value back, for a
  single channel and for a whole frame passed twice through \<^verbatim>\<open>invert_colors\<close>.
\<close>

theorem invert_invert_identity:
  "invert_channel (invert_channel v) = v
   \<and> unat v \<le> 255
   \<and> unat (invert_channel v) = 255 - unat v
   \<and> invert_colors (invert_colors img) = img"
proof -
  have "unat v < 256"
    using unsigned_less [of v, where ?'a = nat] by simp
  moreover have "invert_colors (invert_colors img) = img"
    by (simp add: invert_colors_def invert_pixel_twice comp_def cong: map_cong)
  ultimately show ?thesis
    by (simp add: invert_channel_twice unat_invert_channel)
qed

section \<open>Slices, the mask and the masked frame\<close>

lemma length_fill_slice [simp]: "length (fill_slice a b v xs) = length xs"
  by (simp add: fill_slice_def)
lemma nth_fill_slice:
  "i < length xs \<Longrightarrow> fill_slice a b v xs ! i =
     (if slice_index (length xs) a \<le> i \<and> i < slice_index (length xs) b then v else xs ! i)"
  by (simp add: fill_slice_def nth_enumerate_eq)
lemma slice_index_lower: "0 \<le> a \<Longrightarrow> i < n \<Longrightarrow> slice_index n a \<le> i \<longleftrightarrow> a \<le> int i"
  by (auto simp: slice_index_def min_def)
lemma slice_index_upper: "0 \<le> b \<Longrightarrow> i < n \<Longrightarrow> i < slice_index n b \<longleftrightarrow> int i < b"
  by (auto simp: slice_index_def min_def)
lemma length_fill_region [simp]: "length (fill_region y0 y1 x0 x1 v m) = length m"
  by (simp add: fill_region_def)
lemma nth_fill_region:
  "j < length m \<Longrightarrow> fill_region y0 y1 x0 x1 v m ! j =
     (if slice_index (length m) y0 \<le> j \<and> j < slice_index (length m) y1
      then fill_slice x0 x1 v (m ! j) else m ! j)"
  by (simp add: fill_region_def nth_enumerate_eq)
lemma length_nth_fill_region:
  "j < length m \<Longrightarrow> length (fill_region y0 y1 x0 x1 v m ! j) = length (m ! j)"
  by (simp add: nth_fill_region)
lemma nth_nth_fill_region:
  assumes "0 \<le> y0" "0 \<le> y1" "0 \<le> x0" "0 \<le> x1" "j < length m" "i < length (m ! j)"
  shows "fill_region y0 y1 x0 x1 v m ! j ! i =
     (if y0 \<le> int j \<and> int j < y1 \<and> x0 \<le> int i \<and> int i < x1 then v else m ! j ! i)"
  using assms
  by (simp add: nth_fill_region nth_fill_slice slice_index_lower slice_index_upper)

lemma map_length_fill_region: "map length (fill_region y0 y1 x0 x1 v m) = map length m"
  by (rule nth_equalityI) (simp_all add: nth_fill_region)

lemma map_length_mask_rect: "map length (mask_rect mon m v) = map length m"
  by (simp add: mask_rect_def map_length_fill_region split: prod.splits)

lemma nth_nth_mask_rect:
  assumes "j < length m" "i < length (m ! j)"
  shows "mask_rect mon m v ! j ! i = (if in_overlap mon v j i then 0 else m ! j ! i)"
proof -
  obtain vx vy vright vbottom where v: "v = (vx, vy, vright, vbottom)"
    by (cases v) auto
  obtain mx my mright mbottom where mon: "mon = (mx, my, mright, mbottom)"
    by (cases mon) auto
  show ?thesis
    using assms
    by (auto simp: v mon mask_rect_def clip_to_monitor_def in_overlap_def in_rect_def
        nth_nth_fill_region)
qed

lemma map_length_foldl_mask_rect:
  "map length (foldl (mask_rect mon) m vws) = map length m"
  by (induction vws arbitrary: m) (simp_all add: map_length_mask_rect)

lemma nth_nth_foldl_mask_rect:
  "j < length m \<Longrightarrow> i < length (m ! j) \<Longrightarrow>
   foldl (mask_rect mon) m vws ! j ! i = (if excluded mon vws j i then 0 else m ! j ! i)"
proof (induction vws arbitrary: m)
  case Nil
  then show ?case by (simp add: excluded_def)
next
  case (Cons v vws)
  have len: "map length (mask_rect mon m v) = map length m"
    by (rule map_length_mask_rect)
  have j: "j < length (mask_rect mon m v)"
    using Cons.prems(1) len by (metis length_map)
  have i: "i < length (mask_rect mon m v ! j)"
    using Cons.prems len j by (metis nth_map)
  show ?case
    using Cons.IH [OF j i] Cons.prems
    by (simp add: nth_nth_mask_rect excluded_def)
qed

lemma map_length_video_mask:
  "map length (video_mask mon img vws) = replicate (frame_height img) (frame_width img)"
  by (simp add: video_mask_def map_length_foldl_mask_rect)

lemma nth_nth_video_mask:
  "y < frame_height img \<Longrightarrow> x < frame_width img \<Longrightarrow>
   video_mask mon img vws ! y ! x = (if excluded mon vws y x then 0 else 255)"
  by (simp add: video_mask_def nth_nth_foldl_mask_rect)

lemma rectangular_map_length:
  "rectangular img \<longleftrightarrow> map length img = replicate (frame_height img) (frame_width img)"
  by (auto simp: rectangular_def frame_height_def list_all_iff map_replicate_const [symmetric]
      intro: map_cong dest: map_eq_conv [THEN iffD1, rotated])

lemma and_255 [simp]: "(c :: channel) AND 255 = c"
proof -
  have "(255 :: channel) = - 1" by simp
  then show ?thesis by (simp only: and.right_neutral)
qed

lemma bitwise_and_pixel_0: "bitwise_and_pixel p 0 = (0, 0, 0)"
  by (cases p) (simp add: bitwise_and_pixel_def)

lemma bitwise_and_pixel_255: "bitwise_and_pixel p 255 = p"
  by (cases p) (simp add: bitwise_and_pixel_def)

lemma bitwise_and_pixel_idem: "bitwise_and_pixel (bitwise_and_pixel p m) m = bitwise_and_pixel p m"
  by (cases p) (simp add: bitwise_and_pixel_def)

lemma map2_idem:
  "(\<And>x m. f (f x m) m = f x m) \<Longrightarrow> map2 f (map2 f xs ms) ms = map2 f xs ms"
proof (induction xs arbitrary: ms)
  case Nil
  then show ?case by simp
next
  case (Cons x xs)
  then show ?case by (cases ms) simp_all
qed

lemma frame_height_map2:
  "length ms = frame_height img \<Longrightarrow> frame_height (map2 f img ms) = frame_height img"
  by (simp add: frame_height_def)

lemma frame_width_map2:
  assumes "map length ms = replicate (frame_height img) (frame_width img)"
  shows "frame_width (map2 (map2 f) img ms) = frame_width img"
proof (cases img)
  case Nil
  then show ?thesis by (simp add: frame_width_def)
next
  case (Cons row rest)
  then obtain mrow mrest where ms: "ms = mrow # mrest" and "length mrow = length row"
    using assms by (cases ms) (auto simp: frame_height_def frame_width_def)
  then show ?thesis
    using Cons by (simp add: frame_width_def)
qed

lemma video_mask_cong:
  "frame_height a = frame_height b \<Longrightarrow> frame_width a = frame_width b \<Longrightarrow>
   video_mask mon a vws = video_mask mon b vws"
  by (simp add: video_mask_def)

lemma mask_video_regions_idem:
  "mask_video_regions mon (mask_video_regions mon img vws) vws = mask_video_regions mon img vws"
proof (cases "vws = []")
  case True
  then show ?thesis by (simp add: mask_video_regions_def)
next
  case False
  let ?M = "video_mask mon img vws"
  let ?out = "map2 (map2 bitwise_and_pixel) img ?M"
  have shape: "map length ?M = replicate (frame_height img) (frame_width img)"
    by (rule map_length_video_mask)
  then have "length ?M = frame_height img"
    by (metis length_map length_replicate)
  then have h: "frame_height ?out = frame_height img"
    by (rule frame_height_map2)
  have w: "frame_width ?out = frame_width img"
    using shape by (rule frame_width_map2)
  have M: "video_mask mon ?out vws = ?M"
    using h w by (rule video_mask_cong)
  have row: "\<And>row mrow. map2 bitwise_and_pixel (map2 bitwise_and_pixel row mrow) mrow
      = map2 bitwise_and_pixel row mrow"
    by (rule map2_idem) (rule bitwise_and_pixel_idem)
  have "map2 (map2 bitwise_and_pixel) ?out ?M = ?out"
    by (rule map2_idem) (rule row)
  then show ?thesis
    using False by (simp add: mask_video_regions_def M)
qed

lemma map_length_mask_video_regions:
  "rectangular img \<Longrightarrow> map length (mask_video_regions mon img vws) = map length img"
proof -
  assume r: "rectangular img"
  have shape: "map length (video_mask mon img vws) = map length img"
    using r by (simp add: map_length_video_mask rectangular_map_length)
  have "map length (map2 (map2 bitwise_and_pixel) img (video_mask mon img vws)) = map length img"
  proof (rule nth_equalityI)
    show "length (map length (map2 (map2 bitwise_and_pixel) img (video_mask mon img vws)))
        = length (map length img)"
      using shape by (metis length_map length_zip min.idem)
  next
    fix j assume "j < length (map length (map2 (map2 bitwise_and_pixel) img (video_mask mon img vws)))"
    then have j: "j < length img" "j < length (video_mask mon img vws)"
      by simp_all
    then have "length (video_mask mon img vws ! j) = length (img ! j)"
      using shape by (metis nth_map)
    then show "map length (map2 (map2 bitwise_and_pixel) img (video_mask mon img vws)) ! j
        = map length img ! j"
      using j by simp
  qed
  then show ?thesis
    by (simp add: mask_video_regions_def)
qed

lemma rectangular_nth:
  "rectangular img \<Longrightarrow> y < frame_height img \<Longrightarrow> length (img ! y) = frame_width img"
  by (simp add: rectangular_def frame_height_def list_all_length)

lemma nth_nth_mask_video_regions:
  assumes "rectangular img" "y < frame_height img" "x < frame_width img"
  shows "mask_video_regions mon img vws ! y ! x
     = (if excluded mon vws y x then (0, 0, 0) else img ! y ! x)"
proof (cases "vws = []")
  case True
  then show ?thesis by (simp add: mask_video_regions_def excluded_def)
next
  case False
  let ?M = "video_mask mon img vws"
  have shape: "map length ?M = replicate (frame_height img) (frame_width img)"
    by (rule map_length_video_mask)
  have lenM: "length ?M = frame_height img"
    using shape by (metis length_map length_replicate)
  have y: "y < length img" "y < length ?M"
    using assms(2) lenM by (simp_all add: frame_height_def)
  have "length (?M ! y) = frame_width img"
    using shape y(2) assms(2) by (metis nth_map nth_replicate)
  then have x: "x < length (img ! y)" "x < length (?M ! y)"
    using assms by (simp_all add: rectangular_nth)
  have "map2 (map2 bitwise_and_pixel) img ?M ! y ! x = bitwise_and_pixel (img ! y ! x) (?M ! y ! x)"
    using y x by simp
  then show ?thesis
    using False assms
    by (simp add: mask_video_regions_def nth_nth_video_mask bitwise_and_pixel_0 bitwise_and_pixel_255)
qed

lemma overlap_empty_not_in_overlap: "overlap_empty mon v \<Longrightarrow> \<not> in_overlap mon v y x"
  by (cases v, cases mon) (auto simp: overlap_empty_def in_overlap_def in_rect_def)

lemma not_excluded_if_all_empty: "list_all (overlap_empty mon) vws \<Longrightarrow> \<not> excluded mon vws y x"
  by (auto simp: excluded_def list_all_iff list_ex_iff dest: overlap_empty_not_in_overlap)

lemma frame_eqI:
  assumes "rectangular a" "map length b = map length a"
    and "\<And>y x. y < frame_height a \<Longrightarrow> x < frame_width a \<Longrightarrow> b ! y ! x = a ! y ! x"
  shows "b = a"
proof (rule nth_equalityI)
  show len: "length b = length a"
    using assms(2) by (metis length_map)
  fix y assume y: "y < length b"
  then have ya: "y < frame_height a"
    using len by (simp add: frame_height_def)
  have wa: "length (a ! y) = frame_width a"
    using assms(1) ya by (rule rectangular_nth)
  have wb: "length (b ! y) = length (a ! y)"
    using assms(2) y len by (metis nth_map)
  show "b ! y = a ! y"
  proof (rule nth_equalityI)
    show "length (b ! y) = length (a ! y)" by (rule wb)
    fix x assume "x < length (b ! y)"
    then have "x < frame_width a" using wa wb by simp
    then show "b ! y ! x = a ! y ! x" using ya by (rule assms(3) [rotated])
  qed
qed

lemma inside_monitor_in_overlap:
  "inside_monitor (mx, my, mright, mbottom) R \<Longrightarrow>
   in_overlap (mx, my, mright, mbottom) R y x \<longleftrightarrow> in_rect R (mx + int x) (my + int y)"
  by (cases R) (auto simp: inside_monitor_def in_overlap_def in_rect_def)

lemma rectangular_invert_colors: "rectangular img \<Longrightarrow> rectangular (invert_colors img)"
  by (cases img) (auto simp: rectangular_def invert_colors_def frame_width_def list_all_iff)

lemma frame_height_invert_colors [simp]: "frame_height (invert_colors img) = frame_height img"
  by (simp add: frame_height_def invert_colors_def)

lemma frame_width_invert_colors [simp]: "frame_width (invert_colors img) = frame_width img"
  by (cases img) (simp_all add: frame_width_def invert_colors_def)

lemma nth_nth_invert_colors:
  "rectangular img \<Longrightarrow> y < frame_height img \<Longrightarrow> x < frame_width img \<Longrightarrow>
   invert_colors img ! y ! x = invert_pixel (img ! y ! x)"
  using rectangular_nth [of img y] by (simp add: invert_colors_def frame_height_def)

section \<open>What one capture cycle puts inside and outside an excluded rectangle\<close>

text \<open>
  A frame of one row and two pixels on the monitor (0, 0, 2, 1), with the window (0, 0, 1, 1)
  excluded: the left pixel lies inside the rectangle, and the cycle's output there is
  (0, 0, 0), not the captured (10, 20, 30).
\<close>

theorem exclusion_restores_original_counterexample:
  "inside_monitor (0, 0, 2, 1) (0, 0, 1, 1)
   \<and> in_rect (0, 0, 1, 1) 0 0
   \<and> invert_and_mask (0, 0, 2, 1) [[(10, 20, 30), (40, 50, 60)]] [(0, 0, 1, 1)] ! 0 ! 0 = (0, 0, 0)
   \<and> invert_and_mask (0, 0, 2, 1) [[(10, 20, 30), (40, 50, 60)]] [(0, 0, 1, 1)] ! 0 ! 0
       \<noteq> [[(10, 20, 30), (40, 50, 60)]] ! 0 ! 0"
  by code_simp

text \<open>
  C1, as the code has it. \<^verbatim>\<open>mask_video_regions\<close> receives only the inverted frame and ANDs
  it with a mask that is 0 inside the window and 255 elsewhere, so for a single excluded
  rectangle R that lies inside the monitor, and a captured frame, the frame produced by the
  cycle is black (all three channels 0) at every pixel inside R and the inverted pixel
  (255 - v in each channel) at every pixel outside R. The captured values are not restored
  inside R: see the counterexample above.
\<close>

theorem exclusion_blanks_inside_inverts_outside:
  assumes "rectangular img" and "inside_monitor (mx, my, mright, mbottom) R"
    and "y < frame_height img" and "x < frame_width img"
  shows "invert_and_mask (mx, my, mright, mbottom) img [R] ! y ! x
     = (if in_rect R (mx + int x) (my + int y) then (0, 0, 0) else invert_pixel (img ! y ! x))"
proof -
  have "mask_video_regions (mx, my, mright, mbottom) (invert_colors img) [R] ! y ! x
      = (if excluded (mx, my, mright, mbottom) [R] y x then (0, 0, 0) else invert_colors img ! y ! x)"
    using assms by (intro nth_nth_mask_video_regions) (simp_all add: rectangular_invert_colors)
  then show ?thesis
    using assms
    by (simp add: invert_and_mask_def excluded_def inside_monitor_in_overlap nth_nth_invert_colors)
qed

theorem exclusion_blanks_inside_inverts_outside_witness:
  "rectangular ([[(10, 20, 30), (40, 50, 60)]] :: frame)
   \<and> inside_monitor (5, 7, 7, 8) (5, 7, 6, 8)
   \<and> invert_and_mask (5, 7, 7, 8) [[(10, 20, 30), (40, 50, 60)]] [(5, 7, 6, 8)] ! 0 ! 0 = (0, 0, 0)
   \<and> invert_and_mask (5, 7, 7, 8) [[(10, 20, 30), (40, 50, 60)]] [(5, 7, 6, 8)] ! 0 ! 1 = (215, 205, 195)"
proof -
  have r: "rectangular ([[(10, 20, 30), (40, 50, 60)]] :: frame)"
    by (simp add: rectangular_def frame_width_def)
  have i: "inside_monitor (5, 7, 7, 8) (5, 7, 6, 8)"
    by (simp add: inside_monitor_def)
  have h: "0 < frame_height ([[(10, 20, 30), (40, 50, 60)]] :: frame)"
    by (simp add: frame_height_def)
  have w0: "0 < frame_width ([[(10, 20, 30), (40, 50, 60)]] :: frame)"
    and w1: "1 < frame_width ([[(10, 20, 30), (40, 50, 60)]] :: frame)"
    by (simp_all add: frame_width_def)
  show ?thesis
    using r i exclusion_blanks_inside_inverts_outside [OF r i h w0]
      exclusion_blanks_inside_inverts_outside [OF r i h w1]
    by (simp add: in_rect_def invert_pixel_def invert_channel_def)
qed

section \<open>Clipping to the monitor\<close>

text \<open>
  C5. Masking touches exactly the pixels in the intersection of an exclusion rectangle with
  the monitor's local coordinate space: for every monitor rectangle and every list of
  exclusion rectangles, a pixel of the frame is blanked by the mask when it lies in the
  overlap of some rectangle with the monitor, and keeps its value otherwise; and when every
  rectangle's intersection with the monitor is empty the whole frame comes back unchanged.
\<close>

theorem masking_clipped_to_monitor:
  assumes "rectangular img"
  shows "(y < frame_height img \<and> x < frame_width img \<longrightarrow>
            mask_video_regions mon img vws ! y ! x
              = (if excluded mon vws y x then (0, 0, 0) else img ! y ! x))
       \<and> (list_all (overlap_empty mon) vws \<longrightarrow> mask_video_regions mon img vws = img)"
proof (intro conjI impI)
  assume "y < frame_height img \<and> x < frame_width img"
  then show "mask_video_regions mon img vws ! y ! x
      = (if excluded mon vws y x then (0, 0, 0) else img ! y ! x)"
    using assms by (simp add: nth_nth_mask_video_regions)
next
  assume e: "list_all (overlap_empty mon) vws"
  show "mask_video_regions mon img vws = img"
  proof (rule frame_eqI [OF assms])
    show "map length (mask_video_regions mon img vws) = map length img"
      using assms by (rule map_length_mask_video_regions)
  next
    fix y x assume "y < frame_height img" "x < frame_width img"
    then show "mask_video_regions mon img vws ! y ! x = img ! y ! x"
      using assms e by (simp add: nth_nth_mask_video_regions not_excluded_if_all_empty)
  qed
qed

theorem masking_clipped_to_monitor_witness:
  "rectangular demo_frame
   \<and> mask_video_regions (100, 100, 102, 102) demo_frame [(101, 90, 300, 101)] ! 0 ! 1 = (0, 0, 0)
   \<and> mask_video_regions (100, 100, 102, 102) demo_frame [(101, 90, 300, 101)] ! 0 ! 0 = (10, 20, 30)
   \<and> list_all (overlap_empty (100, 100, 102, 102)) [(102, 100, 110, 110), (0, 0, 100, 100)]
   \<and> mask_video_regions (100, 100, 102, 102) demo_frame [(102, 100, 110, 110), (0, 0, 100, 100)]
       = demo_frame"
proof -
  have r: "rectangular demo_frame"
    by (simp add: demo_frame_def rectangular_def frame_width_def)
  have d: "0 < frame_height demo_frame \<and> 1 < frame_width demo_frame"
    "0 < frame_height demo_frame \<and> 0 < frame_width demo_frame"
    by (simp_all add: demo_frame_def frame_height_def frame_width_def)
  have e: "list_all (overlap_empty (100, 100, 102, 102)) [(102, 100, 110, 110), (0, 0, 100, 100)]"
    by (simp add: overlap_empty_def)
  have v: "demo_frame ! 0 ! 0 = (10, 20, 30)"
    by (simp add: demo_frame_def)
  show ?thesis
    using r d e v
      masking_clipped_to_monitor [OF r, of 0 1 "(100, 100, 102, 102)" "[(101, 90, 300, 101)]"]
      masking_clipped_to_monitor [OF r, of 0 0 "(100, 100, 102, 102)" "[(101, 90, 300, 101)]"]
      masking_clipped_to_monitor [OF r, of 0 0 "(100, 100, 102, 102)"
        "[(102, 100, 110, 110), (0, 0, 100, 100)]"]
    by (simp add: excluded_def in_overlap_def in_rect_def)
qed

section \<open>Masking twice\<close>

text \<open>
  C7. For every frame, monitor and list of exclusion rectangles, overlapping or not, masking
  the masked frame again with the same rectangles gives the masked frame, pixel for pixel.
\<close>

theorem masking_is_idempotent:
  "mask_video_regions mon (mask_video_regions mon img vws) vws = mask_video_regions mon img vws"
  by (rule mask_video_regions_idem)

section \<open>Masking writes into the caller's array\<close>

text \<open>
  C8. \<^verbatim>\<open>mask_video_regions\<close> returns the reference it was given; no other array of the
  store changes; the array behind the reference holds the masked frame afterwards, whether
  or not the caller keeps the return value; and in it exactly the pixels inside a clipped
  rectangle have been overwritten (with 0 in every channel), every other pixel keeping the
  value it had.
\<close>

theorem mask_video_regions_in_place:
  "fst (mask_video_regions_at mon r vws h) = r
   \<and> (q \<noteq> r \<longrightarrow> snd (mask_video_regions_at mon r vws h) q = h q)
   \<and> snd (mask_video_regions_at mon r vws h) r = mask_video_regions mon (h r) vws
   \<and> (rectangular (h r) \<and> y < frame_height (h r) \<and> x < frame_width (h r) \<longrightarrow>
        snd (mask_video_regions_at mon r vws h) r ! y ! x
          = (if excluded mon vws y x then (0, 0, 0) else h r ! y ! x))"
proof -
  have c: "snd (mask_video_regions_at mon r vws h) r = mask_video_regions mon (h r) vws"
    by (simp add: mask_video_regions_at_def mask_video_regions_def)
  have "fst (mask_video_regions_at mon r vws h) = r"
    by (simp add: mask_video_regions_at_def)
  moreover have "q \<noteq> r \<longrightarrow> snd (mask_video_regions_at mon r vws h) q = h q"
    by (simp add: mask_video_regions_at_def)
  moreover have "rectangular (h r) \<and> y < frame_height (h r) \<and> x < frame_width (h r) \<longrightarrow>
        snd (mask_video_regions_at mon r vws h) r ! y ! x
          = (if excluded mon vws y x then (0, 0, 0) else h r ! y ! x)"
    unfolding c by (simp add: nth_nth_mask_video_regions)
  ultimately show ?thesis
    using c by simp
qed

theorem mask_video_regions_in_place_witness:
  "(1 :: ref) \<noteq> 0
   \<and> rectangular demo_frame
   \<and> fst (mask_video_regions_at (0, 0, 2, 2) 0 [(1, 1, 5, 5)] ((\<lambda>_. [])(0 := demo_frame))) = 0
   \<and> snd (mask_video_regions_at (0, 0, 2, 2) 0 [(1, 1, 5, 5)] ((\<lambda>_. [])(0 := demo_frame))) 1 = []
   \<and> snd (mask_video_regions_at (0, 0, 2, 2) 0 [(1, 1, 5, 5)] ((\<lambda>_. [])(0 := demo_frame))) 0 ! 1 ! 1
       = (0, 0, 0)
   \<and> snd (mask_video_regions_at (0, 0, 2, 2) 0 [(1, 1, 5, 5)] ((\<lambda>_. [])(0 := demo_frame))) 0 ! 1 ! 0
       = (70, 80, 90)"
proof -
  have r: "rectangular demo_frame"
    by (simp add: demo_frame_def rectangular_def frame_width_def)
  have d: "1 < frame_height demo_frame" "1 < frame_width demo_frame" "0 < frame_width demo_frame"
    by (simp_all add: demo_frame_def frame_height_def frame_width_def)
  have v: "demo_frame ! 1 ! 0 = (70, 80, 90)"
    by (simp add: demo_frame_def)
  let ?h = "(\<lambda>_. [])(0 := demo_frame) :: heap"
  let ?res = "mask_video_regions_at (0, 0, 2, 2) 0 [(1, 1, 5, 5)] ?h"
  note t1 = mask_video_regions_in_place [of "(0, 0, 2, 2)" 0 "[(1, 1, 5, 5)]" ?h 1 1 1]
  note t0 = mask_video_regions_in_place [of "(0, 0, 2, 2)" 0 "[(1, 1, 5, 5)]" ?h 1 1 0]
  have "fst ?res = 0"
    using t1 by blast
  moreover have "snd ?res 1 = []"
    using t1 by simp
  moreover have "snd ?res 0 ! 1 ! 1 = (0, 0, 0)"
    using t1 [THEN conjunct2, THEN conjunct2, THEN conjunct2] r d by (simp add: excluded_def in_overlap_def in_rect_def)
  moreover have "snd ?res 0 ! 1 ! 0 = (70, 80, 90)"
    using t0 [THEN conjunct2, THEN conjunct2, THEN conjunct2] r d v by (simp add: excluded_def in_overlap_def in_rect_def)
  ultimately show ?thesis
    using r by simp
qed

section \<open>Registering and removing callbacks\<close>

lemma remove_callback_absent: "cb \<notin> set (callbacks d) \<Longrightarrow> remove_callback cb d = Inr d"
  by (simp add: remove_callback_def)

lemma remove_callback_present:
  "cb \<in> set (callbacks d) \<Longrightarrow> remove_callback cb d = Inr (d\<lparr>callbacks := remove1 cb (callbacks d)\<rparr>)"
  by (simp add: remove_callback_def list_remove_def)

lemma remove1_append_new: "cb \<notin> set xs \<Longrightarrow> remove1 cb (xs @ [cb]) = xs"
  by (induction xs) auto

lemma remove1_append_old: "cb \<in> set xs \<Longrightarrow> remove1 cb (xs @ [cb]) = remove1 cb xs @ [cb]"
  by (induction xs) auto

lemma remove_after_add:
  "remove_callback cb (add_callback cb d)
     = Inr (d\<lparr>callbacks := (if cb \<in> set (callbacks d) then remove1 cb (callbacks d) @ [cb]
                              else callbacks d)\<rparr>)"
  by (simp add: remove_callback_present add_callback_def list_append_def
      remove1_append_new remove1_append_old)

text \<open>
  With the callbacks [1, 2] registered, adding callback 1 again and removing it leaves
  [2, 1]: \<^verbatim>\<open>list.remove\<close> deletes the first equal element, the old registration, and the
  new one stays at the end.
\<close>

theorem add_then_remove_reorders_counterexample:
  "callbacks demo_detector = [1, 2]
   \<and> remove_callback 1 (add_callback 1 demo_detector) = Inr (demo_detector\<lparr>callbacks := [2, 1]\<rparr>)
   \<and> demo_detector\<lparr>callbacks := [2, 1]\<rparr> \<noteq> demo_detector"
  by (simp add: remove_after_add demo_detector_def WindowsKeyDetector_init_def)

lemma append_eq_Cons_same: "xs @ [c] = c # xs \<longleftrightarrow> list_all (\<lambda>x. x = c) xs"
  by (induction xs) auto

lemma remove1_append_restores:
  "remove1 cb (xs @ [cb]) = xs \<longleftrightarrow> only_trailing cb xs"
proof (induction xs)
  case Nil
  then show ?case by (simp add: only_trailing_def)
next
  case (Cons x xs)
  show ?case
  proof (cases "x = cb")
    case True
    then show ?thesis
      by (simp add: only_trailing_def append_eq_Cons_same)
  next
    case False
    then show ?thesis
      using Cons.IH by (simp add: only_trailing_def)
  qed
qed

lemma callbacks_update_same: "d\<lparr>callbacks := cbs\<rparr> = d \<longleftrightarrow> cbs = callbacks d"
proof
  assume "d\<lparr>callbacks := cbs\<rparr> = d"
  then have "callbacks (d\<lparr>callbacks := cbs\<rparr>) = callbacks d"
    by simp
  then show "cbs = callbacks d"
    by simp
next
  assume "cbs = callbacks d"
  then show "d\<lparr>callbacks := cbs\<rparr> = d"
    by simp
qed

lemma remove_after_add_list:
  "remove_callback cb (add_callback cb d)
     = Inr (d\<lparr>callbacks := remove1 cb (callbacks d @ [cb])\<rparr>)"
  by (simp add: remove_callback_present add_callback_def list_append_def)

lemma remove_after_add_restores:
  "remove_callback cb (add_callback cb d) = Inr d \<longleftrightarrow> only_trailing cb (callbacks d)"
  by (simp add: remove_after_add_list callbacks_update_same remove1_append_restores)

text \<open>
  C9, as the code has it. For every callback that is not in the list, \<^verbatim>\<open>remove_callback\<close> is
  a no-op; \<^verbatim>\<open>remove_callback\<close> never raises, whatever the callback; and \<^verbatim>\<open>add_callback\<close>
  followed by \<^verbatim>\<open>remove_callback\<close> of the same callback raises nothing, changes no other
  field, and leaves a list with the same callbacks, each as many times as before. The list
  is the one before whenever the callback was not registered; when it was, its first
  registration is the one removed and the callback ends up last, so that the list is the
  one before exactly when nothing but this callback stood in it from the callback's first
  registration on.
\<close>

theorem remove_callback_safe:
  "(cb \<notin> set (callbacks d) \<longrightarrow> remove_callback cb d = Inr d)
   \<and> (\<exists>d'. remove_callback cb d = Inr d')
   \<and> (\<exists>d'. remove_callback cb (add_callback cb d) = Inr d'
          \<and> mset (callbacks d') = mset (callbacks d)
          \<and> d' = d\<lparr>callbacks := callbacks d'\<rparr>
          \<and> (cb \<notin> set (callbacks d) \<longrightarrow> d' = d)
          \<and> (cb \<in> set (callbacks d) \<longrightarrow> callbacks d' = remove1 cb (callbacks d) @ [cb])
          \<and> (d' = d \<longleftrightarrow> only_trailing cb (callbacks d)))"
proof (intro conjI)
  show "cb \<notin> set (callbacks d) \<longrightarrow> remove_callback cb d = Inr d"
    by (simp add: remove_callback_absent)
  show "\<exists>d'. remove_callback cb d = Inr d'"
    by (cases "cb \<in> set (callbacks d)") (simp_all add: remove_callback_absent remove_callback_present)
  let ?d' = "d\<lparr>callbacks := (if cb \<in> set (callbacks d) then remove1 cb (callbacks d) @ [cb]
                              else callbacks d)\<rparr>"
  have r: "remove_callback cb (add_callback cb d) = Inr ?d'"
    by (rule remove_after_add)
  have "?d' = d \<longleftrightarrow> only_trailing cb (callbacks d)"
    using remove_after_add_restores [of cb d] unfolding r by simp
  moreover have "mset (callbacks ?d') = mset (callbacks d)"
    by simp
  moreover have "?d' = d\<lparr>callbacks := callbacks ?d'\<rparr>"
    by simp
  moreover have "cb \<notin> set (callbacks d) \<longrightarrow> ?d' = d"
    by simp
  moreover have "cb \<in> set (callbacks d) \<longrightarrow> callbacks ?d' = remove1 cb (callbacks d) @ [cb]"
    by simp
  ultimately show "\<exists>d'. remove_callback cb (add_callback cb d) = Inr d'
          \<and> mset (callbacks d') = mset (callbacks d)
          \<and> d' = d\<lparr>callbacks := callbacks d'\<rparr>
          \<and> (cb \<notin> set (callbacks d) \<longrightarrow> d' = d)
          \<and> (cb \<in> set (callbacks d) \<longrightarrow> callbacks d' = remove1 cb (callbacks d) @ [cb])
          \<and> (d' = d \<longleftrightarrow> only_trailing cb (callbacks d))"
    using r by blast
qed

theorem remove_callback_safe_witness:
  "3 \<notin> set (callbacks demo_detector)
   \<and> remove_callback 3 demo_detector = Inr demo_detector
   \<and> remove_callback 3 (add_callback 3 demo_detector) = Inr demo_detector
   \<and> 1 \<in> set (callbacks demo_detector) \<and> \<not> only_trailing 1 (callbacks demo_detector)
   \<and> (\<exists>d'. remove_callback 1 (add_callback 1 demo_detector) = Inr d' \<and> callbacks d' = [2, 1]
         \<and> d' \<noteq> demo_detector)
   \<and> 2 \<in> set (callbacks demo_detector) \<and> only_trailing 2 (callbacks demo_detector)
   \<and> remove_callback 2 (add_callback 2 demo_detector) = Inr demo_detector"
proof -
  have c: "callbacks demo_detector = [1, 2]"
    by (simp add: demo_detector_def)
  have t: "only_trailing 3 [1, 2 :: nat]" "\<not> only_trailing 1 [1, 2 :: nat]"
    "only_trailing 2 [1, 2 :: nat]"
    by (simp_all add: only_trailing_def)
  have "remove_callback 3 demo_detector = Inr demo_detector
      \<and> remove_callback 3 (add_callback 3 demo_detector) = Inr demo_detector"
    using remove_callback_safe [of 3 demo_detector] by (auto simp: c)
  moreover have "\<exists>d'. remove_callback 1 (add_callback 1 demo_detector) = Inr d'
      \<and> callbacks d' = [2, 1] \<and> d' \<noteq> demo_detector"
    using remove_callback_safe [of 1 demo_detector] t by (auto simp: c)
  moreover have "remove_callback 2 (add_callback 2 demo_detector) = Inr demo_detector"
    using remove_callback_safe [of 2 demo_detector] t by (auto simp: c)
  ultimately show ?thesis
    using t by (simp add: c)
qed

section \<open>Holding the key\<close>

lemma running_detection_step [simp]: "running (snd (detection_step p d)) = running d"
  by (simp add: detection_step_def Let_def split: sum.splits prod.splits)

lemma detection_loop_append:
  "detection_loop (ps @ qs) d =
     (case detection_loop ps d of (evs, d') \<Rightarrow>
        case detection_loop qs d' of (rest, d'') \<Rightarrow> (evs @ rest, d''))"
proof (induction ps arbitrary: d)
  case Nil
  then show ?case by (simp split: prod.splits)
next
  case (Cons p ps)
  show ?case
  proof (cases "running d")
    case True
    then show ?thesis
      by (simp add: Cons.IH split: prod.splits)
  next
    case False
    then show ?thesis
      by (cases qs) simp_all
  qed
qed

lemma held_below_threshold:
  "running d \<Longrightarrow> key_pressed d \<Longrightarrow>
   \<forall>p \<in> set ps. \<exists>t. p = Inr (True, t) \<and> t - press_start_time d < hold_duration d \<Longrightarrow>
   detection_loop ps d = ([], d)"
proof (induction ps)
  case Nil
  then show ?case by simp
next
  case (Cons p ps)
  then obtain t where p: "p = Inr (True, t)" and t: "t - press_start_time d < hold_duration d"
    by auto
  have "detection_step p d = ([], d)"
    using Cons.prems(2) t by (simp add: p detection_step_def)
  then show ?case
    using Cons by simp
qed

lemma held_from_quiet:
  assumes "running d" "key_pressed d"
    and "rat_of_nat b / 100 - press_start_time d \<le> hold_duration d"
  shows "detection_loop (held_from a b) d = ([], d)"
proof (rule held_below_threshold [OF assms(1,2)], rule ballI)
  fix p assume "p \<in> set (held_from a b)"
  then obtain i where i: "i < b" and p: "p = Inr (True, rat_of_nat i / 100)"
    by (auto simp: held_from_def)
  have "rat_of_nat i / 100 < rat_of_nat b / 100"
    using i by (simp add: divide_strict_right_mono)
  then have "rat_of_nat i / 100 - press_start_time d < hold_duration d"
    using assms(3) by linarith
  then show "\<exists>t. p = Inr (True, t) \<and> t - press_start_time d < hold_duration d"
    using p by blast
qed

lemma held_from_split:
  assumes "a \<le> b" "b \<le> c"
  shows "held_from a c = held_from a b @ held_from b c"
proof -
  have "[a..<c] = [a..<b] @ [b..<c]"
    using assms upt_add_eq_append [of a b "c - b"] by simp
  then show ?thesis
    by (simp add: held_from_def)
qed

lemma held_polls_split:
  "held_polls 451 = held_from 0 1 @ held_from 1 200 @ held_from 200 201
      @ held_from 201 400 @ held_from 400 401 @ held_from 401 451"
proof -
  have "held_polls 451 = held_from 0 451"
    by (simp add: held_polls_def held_from_def)
  also have "\<dots> = held_from 0 1 @ held_from 1 451"
    by (rule held_from_split) simp_all
  also have "held_from 1 451 = held_from 1 200 @ held_from 200 451"
    by (rule held_from_split) simp_all
  also have "held_from 200 451 = held_from 200 201 @ held_from 201 451"
    by (rule held_from_split) simp_all
  also have "held_from 201 451 = held_from 201 400 @ held_from 400 451"
    by (rule held_from_split) simp_all
  also have "held_from 400 451 = held_from 400 401 @ held_from 401 451"
    by (rule held_from_split) simp_all
  finally show ?thesis .
qed

lemma held_from_single: "held_from n (Suc n) = [Inr (True, rat_of_nat n / 100)]"
  by (simp add: held_from_def)

lemma armed_quiet:
  "rat_of_nat b / 100 - t \<le> 2 \<Longrightarrow> detection_loop (held_from a b) (armed cb t) = ([], armed cb t)"
  by (rule held_from_quiet) (simp_all add: armed_def)

lemma armed_fires:
  "m = Suc n \<Longrightarrow> rat_of_nat n / 100 - t \<ge> 2 \<Longrightarrow>
   detection_loop (held_from n m) (armed cb t) = ([Called cb], armed cb (rat_of_nat n / 100))"
  by (simp add: held_from_single detection_step_def armed_def)

lemma first_press:
  "detection_loop (held_from 0 1)
     ((WindowsKeyDetector_init 2)\<lparr>running := True, callbacks := [cb]\<rparr>) = ([], armed cb 0)"
  using held_from_single [of 0]
  by (simp add: detection_step_def armed_def WindowsKeyDetector_init_def)

text \<open>
  C2 asks for one firing per physical hold. The detector is the one the controller builds
  (threshold 2.0 s), running, with one callback registered; the key goes down at time 0
  and is read as down every 10 ms up to 4.50 s, never released. The loop calls the callback
  at 2.00 s, sets \<^verbatim>\<open>press_start_time\<close> to that time, and calls it again at 4.00 s: twice
  in one hold.
\<close>

theorem long_hold_fires_twice:
  "fst (detection_loop (held_polls 451)
          ((WindowsKeyDetector_init 2)\<lparr>running := True, callbacks := [cb]\<rparr>))
     = [Called cb, Called cb]
   \<and> times_called cb (fst (detection_loop (held_polls 451)
          ((WindowsKeyDetector_init 2)\<lparr>running := True, callbacks := [cb]\<rparr>))) = 2"
proof -
  have q1: "detection_loop (held_from 1 200) (armed cb 0) = ([], armed cb 0)"
    by (rule armed_quiet) simp
  have f1: "detection_loop (held_from 200 201) (armed cb 0) = ([Called cb], armed cb 2)"
    using armed_fires [of 201 200 0 cb] by simp
  have q2: "detection_loop (held_from 201 400) (armed cb 2) = ([], armed cb 2)"
    by (rule armed_quiet) simp
  have f2: "detection_loop (held_from 400 401) (armed cb 2) = ([Called cb], armed cb 4)"
    using armed_fires [of 401 400 2 cb] by simp
  have q3: "detection_loop (held_from 401 451) (armed cb 4) = ([], armed cb 4)"
    by (rule armed_quiet) simp
  have "detection_loop (held_polls 451)
          ((WindowsKeyDetector_init 2)\<lparr>running := True, callbacks := [cb]\<rparr>)
      = ([Called cb, Called cb], armed cb 4)"
    by (simp only: held_polls_split detection_loop_append first_press q1 f1 q2 f2 q3
        prod.case append.simps)
  then show ?thesis
    by (simp add: times_called_def)
qed

section \<open>An error in a cycle of the capture loop\<close>

lemma capture_and_invert_append:
  "capture_and_invert (pre @ rest) c =
     (case capture_and_invert pre c of (tr, ended, c1) \<Rightarrow>
        if ended then (tr, True, c1)
        else (case capture_and_invert rest c1 of (tr2, ended2, c2) \<Rightarrow> (tr @ tr2, ended2, c2)))"
proof (induction pre arbitrary: c)
  case Nil
  then show ?case by (simp split: prod.splits)
next
  case (Cons env pre)
  show ?case
    by (simp add: Cons.IH Let_def split: prod.splits option.splits)
qed

text \<open>
  The inverter is started and active, and \<^verbatim>\<open>running\<close> stays set. The capture of the
  first cycle raises; the second cycle would succeed (alone it captures and shows the
  inverted frame). The loop prints the error and has ended: nothing of the second cycle
  happens.
\<close>

theorem capture_error_ends_loop_counterexample:
  "inv_running (set_inversion_active True started_inverter)
   \<and> capture_and_invert [failing_cycle, good_cycle] (set_inversion_active True started_inverter)
       = ([Print ''Error in capture loop: display changed''], True,
          set_inversion_active True started_inverter)
   \<and> capture_and_invert [good_cycle] (set_inversion_active True started_inverter)
       = ([Captured, ShowImage (invert_colors demo_frame), Sleep], False,
          set_inversion_active True started_inverter)"
  by (simp add: started_inverter_def inverter_start_def create_overlay_window_def
      ColorInverter_init_def empty_world_def set_inversion_active_def failing_cycle_def
      good_cycle_def cycle_def surface_ready_def invert_and_mask_def)

text \<open>
  C3, as the code has it. At any point of the loop's run: when the loop has come through
  the cycles before and \<^verbatim>\<open>running\<close> is set, and a step of the next cycle raises an error,
  the loop does what that cycle did up to the error, prints the error, and ends there (the
  \<^verbatim>\<open>break\<close> of the handler); whatever cycles would follow are not run, although
  \<^verbatim>\<open>running\<close> is still set.
\<close>

theorem capture_error_is_logged_and_ends_loop:
  assumes "capture_and_invert pre c = (tr, False, c1)"
    and "inv_running (foldl apply_call c1 (calls env))"
    and "cycle env (foldl apply_call c1 (calls env)) = (out, Some e)"
  shows "capture_and_invert (pre @ env # envs) c
     = (tr @ out @ [Print (''Error in capture loop: '' @ e)], True, foldl apply_call c1 (calls env))"
  using assms by (simp add: capture_and_invert_append)

lemma cycle_capture_fails:
  "inversion_active c \<Longrightarrow> screenshot env = Inl e \<Longrightarrow> cycle env c = ([], Some e)"
  by (simp add: cycle_def)

theorem capture_error_is_logged_and_ends_loop_witness:
  "capture_and_invert [good_cycle] (set_inversion_active True started_inverter)
     = ([Captured, ShowImage (invert_colors demo_frame), Sleep], False,
        set_inversion_active True started_inverter)
   \<and> inv_running (foldl apply_call (set_inversion_active True started_inverter) (calls failing_cycle))
   \<and> cycle failing_cycle (foldl apply_call (set_inversion_active True started_inverter) (calls failing_cycle))
       = ([], Some ''display changed'')
   \<and> capture_and_invert ([good_cycle] @ failing_cycle # [good_cycle, good_cycle])
        (set_inversion_active True started_inverter)
       = ([Captured, ShowImage (invert_colors demo_frame), Sleep,
           Print ''Error in capture loop: display changed''], True,
          set_inversion_active True started_inverter)"
proof -
  let ?c = "set_inversion_active True started_inverter"
  have a: "capture_and_invert [good_cycle] ?c
      = ([Captured, ShowImage (invert_colors demo_frame), Sleep], False, ?c)"
    by (simp add: started_inverter_def inverter_start_def create_overlay_window_def
        ColorInverter_init_def empty_world_def set_inversion_active_def
        good_cycle_def cycle_def surface_ready_def invert_and_mask_def)
  have f: "foldl apply_call ?c (calls failing_cycle) = ?c"
    by (simp add: failing_cycle_def)
  have b: "inv_running (foldl apply_call ?c (calls failing_cycle))"
    unfolding f
    by (simp add: started_inverter_def inverter_start_def create_overlay_window_def
        ColorInverter_init_def empty_world_def set_inversion_active_def)
  have c: "cycle failing_cycle (foldl apply_call ?c (calls failing_cycle)) = ([], Some ''display changed'')"
    unfolding f
    by (rule cycle_capture_fails) (simp_all add: set_inversion_active_def failing_cycle_def)
  show ?thesis
    using a b c capture_error_is_logged_and_ends_loop [OF a b c, of "[good_cycle, good_cycle]"]
    by (simp add: f)
qed

section \<open>Starting twice, stopping twice\<close>

text \<open>
  On an empty screen, one \<^verbatim>\<open>start\<close> of an inverter leaves one overlay window and one
  capture thread; a second \<^verbatim>\<open>start\<close> of the same inverter leaves two windows and two
  threads. The same holds for two calls of \<^verbatim>\<open>start_detection\<close> on the controller.
\<close>

theorem start_twice_counterexample:
  "overlays (snd (inverter_start (ColorInverter_init (0, 0, 2, 2)) empty_world)) = [0]
   \<and> capture_threads (snd (inverter_start (ColorInverter_init (0, 0, 2, 2)) empty_world)) = 1
   \<and> overlays (snd (inverter_start started_inverter
         (snd (inverter_start (ColorInverter_init (0, 0, 2, 2)) empty_world)))) = [0, 1]
   \<and> capture_threads (snd (inverter_start started_inverter
         (snd (inverter_start (ColorInverter_init (0, 0, 2, 2)) empty_world)))) = 2
   \<and> overlays (snd (start_detection (fst (start_detection demo_gui empty_world))
         (snd (start_detection demo_gui empty_world)))) = [0, 1]
   \<and> capture_threads (snd (start_detection (fst (start_detection demo_gui empty_world))
         (snd (start_detection demo_gui empty_world)))) = 2"
  by (simp add: started_inverter_def inverter_start_def create_overlay_window_def
      ColorInverter_init_def empty_world_def start_detection_def demo_gui_def
      InverterGUI_init_def list_get_def detector_start_def add_callback_def
      WindowsKeyDetector_init_def list_append_def)

lemma overlays_inverter_start:
  "overlays (snd (inverter_start c w)) = overlays w @ [next_window w]"
  by (simp add: inverter_start_def create_overlay_window_def Let_def)

lemma capture_threads_inverter_start:
  "capture_threads (snd (inverter_start c w)) = Suc (capture_threads w)"
  by (simp add: inverter_start_def create_overlay_window_def Let_def)

lemma inverter_stop_twice:
  "inverter_stop (fst (inverter_stop c w)) (snd (inverter_stop c w)) = inverter_stop c w"
  by (cases "overlay_window c") (simp_all add: inverter_stop_def)

lemma stop_detection_twice:
  "stop_detection (fst (stop_detection g w)) (snd (stop_detection g w)) = stop_detection g w"
  by (simp add: stop_detection_def detector_stop_def)

lemma stop_detection_stopped:
  "gui_inverter g = None \<Longrightarrow> snd (stop_detection g w) = w"
  by (simp add: stop_detection_def)

lemma start_detection_ok:
  assumes "0 \<le> selected_index g" "selected_index g < int (length (monitors g))"
  shows "start_detection g w =
     (case inverter_start (ColorInverter_init (rect (monitors g ! nat (selected_index g)))) w of
        (c, w') \<Rightarrow>
          case detector_start (add_callback ToggleInversion (windows_key_detector g)) w' of
            (d, w'') \<Rightarrow>
              (g\<lparr>gui_inverter := Some c, windows_key_detector := d,
                 start_button_enabled := False, stop_button_enabled := True,
                 status := ''Detection active - Hold Windows key to toggle''\<rparr>, w''))"
  using assms by (simp add: start_detection_def list_get_def)

lemma overlays_detector_start [simp]:
  "overlays (snd (detector_start d w)) = overlays w"
  by (simp add: detector_start_def)

lemma capture_threads_detector_start [simp]:
  "capture_threads (snd (detector_start d w)) = capture_threads w"
  by (simp add: detector_start_def)

text \<open>
  C4, as the code has it. \<^verbatim>\<open>ColorInverter.start\<close> does not test whether it has started:
  every call creates one more overlay window and starts one more capture thread, and so
  does every call of \<^verbatim>\<open>start_detection\<close> that finds its monitor; what stands against a
  second start is the start button, which a successful \<^verbatim>\<open>start_detection\<close> disables.
  Stopping is idempotent: \<^verbatim>\<open>stop\<close> on a stopped inverter and \<^verbatim>\<open>stop_detection\<close> on a
  stopped controller change nothing and raise nothing, and \<^verbatim>\<open>stop_detection\<close> on a
  controller without an inverter leaves the screen as it is.
\<close>

theorem start_adds_a_surface_and_a_loop:
  "overlays (snd (inverter_start c w)) = overlays w @ [next_window w]
   \<and> capture_threads (snd (inverter_start c w)) = Suc (capture_threads w)
   \<and> (0 \<le> selected_index g \<and> selected_index g < int (length (monitors g)) \<longrightarrow>
        overlays (snd (start_detection g w)) = overlays w @ [next_window w]
        \<and> capture_threads (snd (start_detection g w)) = Suc (capture_threads w)
        \<and> \<not> start_button_enabled (fst (start_detection g w)))
   \<and> inverter_stop (fst (inverter_stop c w)) (snd (inverter_stop c w)) = inverter_stop c w
   \<and> stop_detection (fst (stop_detection g w)) (snd (stop_detection g w)) = stop_detection g w
   \<and> (gui_inverter g = None \<longrightarrow> snd (stop_detection g w) = w)"
proof -
  have "overlays (snd (start_detection g w)) = overlays w @ [next_window w]
        \<and> capture_threads (snd (start_detection g w)) = Suc (capture_threads w)
        \<and> \<not> start_button_enabled (fst (start_detection g w))"
    if "0 \<le> selected_index g \<and> selected_index g < int (length (monitors g))"
    using that
    by (simp add: start_detection_ok overlays_inverter_start capture_threads_inverter_start
        split: prod.splits)
      (metis overlays_inverter_start capture_threads_inverter_start overlays_detector_start
        capture_threads_detector_start snd_conv)
  then show ?thesis
    by (simp add: overlays_inverter_start capture_threads_inverter_start inverter_stop_twice
        stop_detection_twice stop_detection_stopped)
qed

theorem start_adds_a_surface_and_a_loop_witness:
  "0 \<le> selected_index demo_gui \<and> selected_index demo_gui < int (length (monitors demo_gui))
   \<and> overlays (snd (start_detection demo_gui empty_world)) = [0]
   \<and> capture_threads (snd (start_detection demo_gui empty_world)) = 1
   \<and> \<not> start_button_enabled (fst (start_detection demo_gui empty_world))
   \<and> gui_inverter demo_gui = None
   \<and> snd (stop_detection demo_gui empty_world) = empty_world"
proof -
  have i: "0 \<le> selected_index demo_gui \<and> selected_index demo_gui < int (length (monitors demo_gui))"
    by (simp add: demo_gui_def InverterGUI_init_def)
  have n: "gui_inverter demo_gui = None"
    by (simp add: demo_gui_def InverterGUI_init_def)
  show ?thesis
    using i n start_adds_a_surface_and_a_loop [of started_inverter empty_world demo_gui]
    by (simp add: empty_world_def)
qed

section \<open>Inversion starts disabled\<close>

lemma inactive_after_stops:
  "\<not> inversion_active c \<Longrightarrow> list_all (\<lambda>a. a = Stop) cs \<Longrightarrow>
   \<not> inversion_active (foldl apply_call c cs)"
  by (induction cs arbitrary: c) simp_all

lemma cycle_inactive:
  "\<not> inversion_active c \<Longrightarrow> list_all idle_action (fst (cycle env c))"
  by (simp add: cycle_def idle_action_def split: sum.splits)

lemma idle_action_Print [simp]: "idle_action (Print m)"
  by (simp add: idle_action_def)

lemma inactive_capture_and_invert:
  "\<not> inversion_active c \<Longrightarrow> list_all no_toggle envs \<Longrightarrow>
   list_all idle_action (fst (capture_and_invert envs c))
   \<and> \<not> inversion_active (snd (snd (capture_and_invert envs c)))"
proof (induction envs arbitrary: c)
  case Nil
  then show ?case by simp
next
  case (Cons env envs)
  let ?c = "foldl apply_call c (calls env)"
  have ia: "\<not> inversion_active ?c"
    using Cons.prems by (simp add: inactive_after_stops no_toggle_def)
  have cy: "list_all idle_action (fst (cycle env ?c))"
    using ia by (rule cycle_inactive)
  have rest: "list_all idle_action (fst (capture_and_invert envs ?c))
      \<and> \<not> inversion_active (snd (snd (capture_and_invert envs ?c)))"
    using ia Cons.prems(2) by (intro Cons.IH) simp_all
  show ?case
    using ia cy rest
    by (auto simp: Let_def split: prod.splits option.splits)
qed

lemma inactive_inverter_start:
  "inversion_active (fst (inverter_start c w)) = inversion_active c"
  by (simp add: inverter_start_def create_overlay_window_def Let_def)

lemma start_detection_inverter_inactive:
  "gui_inverter g = None \<Longrightarrow> gui_inverter (fst (start_detection g w)) = Some c \<Longrightarrow>
   \<not> inversion_active c"
  by (auto simp: start_detection_def inverter_start_def create_overlay_window_def Let_def
      ColorInverter_init_def split: if_splits sum.splits prod.splits)

lemma start_detection_keeps_flag:
  "inversion_enabled (fst (start_detection g w)) = inversion_enabled g"
  by (simp add: start_detection_def split: sum.splits prod.splits)

text \<open>
  C10. A newly constructed inverter has \<^verbatim>\<open>inversion_active\<close> false, and \<^verbatim>\<open>start\<close> leaves
  it false; as long as no \<^verbatim>\<open>set_inversion_active\<close> call reaches it, every cycle of the
  loop takes the clear-overlay branch and captures nothing. \<^verbatim>\<open>stop_detection\<close> resets
  the controller's \<^verbatim>\<open>inversion_enabled\<close> to false and drops the inverter, so after the
  next \<^verbatim>\<open>start_detection\<close> the flag is false and the new inverter is not inverting.
\<close>

theorem inversion_starts_disabled:
  "\<not> inversion_active (ColorInverter_init r)
   \<and> \<not> inversion_active (fst (inverter_start (ColorInverter_init r) w))
   \<and> (list_all no_toggle envs \<longrightarrow>
        list_all idle_action
          (fst (capture_and_invert envs (fst (inverter_start (ColorInverter_init r) w))))
        \<and> Captured \<notin> set (fst (capture_and_invert envs (fst (inverter_start (ColorInverter_init r) w)))))
   \<and> \<not> inversion_enabled (fst (stop_detection g w))
   \<and> gui_inverter (fst (stop_detection g w)) = None
   \<and> \<not> inversion_enabled (fst (start_detection (fst (stop_detection g w)) w'))
   \<and> (gui_inverter (fst (start_detection (fst (stop_detection g w)) w')) = Some c \<longrightarrow>
        \<not> inversion_active c)"
proof -
  have i: "\<not> inversion_active (ColorInverter_init r)"
    by (simp add: ColorInverter_init_def)
  then have s: "\<not> inversion_active (fst (inverter_start (ColorInverter_init r) w))"
    by (simp add: inactive_inverter_start)
  have l: "list_all idle_action
          (fst (capture_and_invert envs (fst (inverter_start (ColorInverter_init r) w))))
        \<and> Captured \<notin> set (fst (capture_and_invert envs (fst (inverter_start (ColorInverter_init r) w))))"
    if "list_all no_toggle envs"
  proof -
    have a: "list_all idle_action
        (fst (capture_and_invert envs (fst (inverter_start (ColorInverter_init r) w))))"
      using inactive_capture_and_invert [OF s that] by simp
    moreover have "\<not> idle_action Captured"
      by (simp add: idle_action_def)
    ultimately show ?thesis
      by (auto simp: list_all_iff)
  qed
  have e: "\<not> inversion_enabled (fst (stop_detection g w))"
    and n: "gui_inverter (fst (stop_detection g w)) = None"
    by (simp_all add: stop_detection_def Let_def)
  have e': "\<not> inversion_enabled (fst (start_detection (fst (stop_detection g w)) w'))"
    using e by (simp add: start_detection_keeps_flag)
  have a: "gui_inverter (fst (start_detection (fst (stop_detection g w)) w')) = Some c \<longrightarrow>
        \<not> inversion_active c"
    using start_detection_inverter_inactive [OF n] by blast
  show ?thesis
    using i s l e n e' a by blast
qed

theorem inversion_starts_disabled_witness:
  "list_all no_toggle [good_cycle, good_cycle]
   \<and> fst (capture_and_invert [good_cycle, good_cycle]
        (fst (inverter_start (ColorInverter_init (0, 0, 2, 2)) empty_world)))
       = [ClearOverlay, Sleep, ClearOverlay, Sleep]
   \<and> Captured \<notin> set (fst (capture_and_invert [good_cycle, good_cycle]
        (fst (inverter_start (ColorInverter_init (0, 0, 2, 2)) empty_world))))
   \<and> gui_inverter (fst (start_detection (fst (stop_detection demo_gui empty_world)) empty_world))
       = Some started_inverter
   \<and> \<not> inversion_active started_inverter"
proof -
  have t: "list_all no_toggle [good_cycle, good_cycle]"
    by (simp add: no_toggle_def good_cycle_def)
  have r: "fst (capture_and_invert [good_cycle, good_cycle]
        (fst (inverter_start (ColorInverter_init (0, 0, 2, 2)) empty_world)))
       = [ClearOverlay, Sleep, ClearOverlay, Sleep]"
    by (simp add: inverter_start_def create_overlay_window_def ColorInverter_init_def
        empty_world_def good_cycle_def cycle_def surface_ready_def)
  have g: "gui_inverter (fst (start_detection (fst (stop_detection demo_gui empty_world)) empty_world))
       = Some started_inverter"
    by (simp add: started_inverter_def start_detection_def stop_detection_def demo_gui_def
        InverterGUI_init_def list_get_def Let_def split: prod.splits)
  show ?thesis
    using t r g
      inversion_starts_disabled [where r = "(0, 0, 2, 2)" and w = empty_world
        and envs = "[good_cycle, good_cycle]" and g = demo_gui and w' = empty_world
        and c = started_inverter]
    by simp
qed

end
